theory Spec2Isabelle
  imports Complex_Main
begin

section \<open>JavaScript numbers\<close>

text \<open>
  The program computes with JavaScript numbers. Finite values are modelled as reals
  (rounding to the nearest double is abstracted away); the three non-finite values
  that the pitch detector can produce are kept as separate constructors. Reading an
  array outside its bounds yields \<open>undefined\<close>, modelled as \<open>None\<close>; \<open>undefined\<close> in
  arithmetic becomes \<open>NaN\<close> and every comparison with it is false. A sample buffer
  (\<open>Float32Array\<close>) is a list of finite samples.
\<close>

datatype jsnum = Num real | NaN | PosInf | NegInf

fun js_less :: "jsnum \<Rightarrow> jsnum \<Rightarrow> bool" where
  "js_less (Num a) (Num b) = (a < b)"
| "js_less NaN _ = False"
| "js_less _ NaN = False"
| "js_less NegInf (Num b) = True"
| "js_less NegInf PosInf = True"
| "js_less NegInf NegInf = False"
| "js_less (Num a) PosInf = True"
| "js_less (Num a) NegInf = False"
| "js_less PosInf _ = False"

definition js_div :: "real \<Rightarrow> real \<Rightarrow> jsnum" where
  \<comment> \<open>\<open>x / y\<close> for finite \<open>x\<close>, \<open>y\<close>; a zero divisor here is always \<open>+0\<close>.\<close>
  "js_div x y =
     (if y \<noteq> 0 then Num (x / y)
      else if 0 < x then PosInf else if x < 0 then NegInf else NaN)"

definition js_round :: "real \<Rightarrow> int" where
  \<comment> \<open>\<open>Math.round\<close>: nearest integer, ties towards \<open>+\<infinity>\<close>.\<close>
  "js_round x = \<lfloor>x + 1 / 2\<rfloor>"

definition c_at :: "real list \<Rightarrow> int \<Rightarrow> real option" where
  \<comment> \<open>\<open>c[i]\<close> on a plain array: \<open>undefined\<close> outside \<open>0 .. length - 1\<close>.\<close>
  "c_at c i = (if 0 \<le> i \<and> i < int (length c) then Some (c ! nat i) else None)"

fun js_gt :: "real option \<Rightarrow> real option \<Rightarrow> bool" where
  "js_gt (Some a) (Some b) = (a > b)"
| "js_gt _ _ = False"

definition js_slice :: "real list \<Rightarrow> int \<Rightarrow> int \<Rightarrow> real list" where
  \<comment> \<open>\<open>TypedArray.prototype.slice(start, end)\<close> with its clamping of both bounds.\<close>
  "js_slice xs start fin =
     (let len = int (length xs);
          k = (if start < 0 then max (len + start) 0 else min start len);
          final = (if fin < 0 then max (len + fin) 0 else min fin len)
      in take (nat (final - k)) (drop (nat k) xs))"

section \<open>services/audioUtils.ts\<close>

definition getNoteFromFrequency :: "real \<Rightarrow> int" where
  \<comment> \<open>for a positive frequency, where \<open>Math.log\<close> is finite\<close>
  "getNoteFromFrequency frequency =
     (let noteNum = 12 * (ln (frequency / 440) / ln 2)
      in js_round noteNum + 69)"

definition getFrequencyFromMidi :: "int \<Rightarrow> real" where
  "getFrequencyFromMidi midi = 440 * 2 powr ((real_of_int midi - 69) / 12)"

subsection \<open>autoCorrelate\<close>

definition sum_squares :: "real list \<Rightarrow> real" where
  \<comment> \<open>the first loop: \<open>rms += val * val\<close> over the whole buffer\<close>
  "sum_squares buffer = foldl (\<lambda>acc val. acc + val * val) 0 buffer"

definition rms :: "real list \<Rightarrow> jsnum" where
  \<comment> \<open>\<open>Math.sqrt(rms / SIZE)\<close>; on an empty buffer \<open>0 / 0\<close> is \<open>NaN\<close>\<close>
  "rms buffer =
     (if length buffer = 0 then NaN
      else Num (sqrt (sum_squares buffer / real (length buffer))))"

definition too_quiet :: "real list \<Rightarrow> bool" where
  \<comment> \<open>\<open>rms < 0.01\<close>\<close>
  "too_quiet buffer = js_less (rms buffer) (Num 0.01)"

definition thres :: real where
  "thres = 0.2"

function find_r1 :: "real list \<Rightarrow> nat \<Rightarrow> nat" where
  "find_r1 buffer i =
     (if 2 * i < length buffer
      then (if \<bar>buffer ! i\<bar> < thres then i else find_r1 buffer (Suc i))
      else 0)"
  by pat_completeness auto
termination
  by (relation "measure (\<lambda>(buffer, i). length buffer - i)") auto

function find_r2 :: "real list \<Rightarrow> nat \<Rightarrow> int" where
  "find_r2 buffer i =
     (if 2 * i < length buffer
      then (if \<bar>buffer ! (length buffer - i)\<bar> < thres then int (length buffer - i)
            else find_r2 buffer (Suc i))
      else int (length buffer) - 1)"
  by pat_completeness auto
termination
  by (relation "measure (\<lambda>(buffer, i). length buffer - i)") auto

definition acf_at :: "real list \<Rightarrow> nat \<Rightarrow> real" where
  \<comment> \<open>the inner loop for one lag \<open>i\<close>\<close>
  "acf_at buf2 i =
     foldl (\<lambda>acc j. acc + buf2 ! j * buf2 ! (j + i)) 0 [0..<length buf2 - i]"

definition acf :: "real list \<Rightarrow> real list" where
  "acf buf2 = map (acf_at buf2) [0..<length buf2]"

function decline :: "real list \<Rightarrow> nat \<Rightarrow> nat" where
  \<comment> \<open>\<open>while (c[d] > c[d + 1]) d++\<close>\<close>
  "decline c d =
     (if js_gt (c_at c (int d)) (c_at c (int d + 1)) then decline c (Suc d) else d)"
  by pat_completeness auto
termination
proof (relation "measure (\<lambda>(c, d). length c - d)")
  show "wf (measure (\<lambda>(c, d). length c - d))"
    by simp
next
  fix c :: "real list" and d :: nat
  assume "js_gt (c_at c (int d)) (c_at c (int d + 1))"
  then have "d < length c"
    by (cases "d < length c") (simp_all add: c_at_def)
  then show "((c, Suc d), (c, d)) \<in> measure (\<lambda>(c, d). length c - d)"
    by simp
qed

definition peak_search :: "real list \<Rightarrow> nat \<Rightarrow> real \<times> int" where
  \<comment> \<open>the loop over \<open>i = d .. buf2.length - 1\<close> updating \<open>(maxval, maxpos)\<close> from
      \<open>(-1, -1)\<close>; \<open>c\<close> has the length of \<open>buf2\<close>\<close>
  "peak_search c d =
     foldl (\<lambda>(maxval, maxpos) i. if c ! i > maxval then (c ! i, int i) else (maxval, maxpos))
       (-1, -1) [d..<length c]"

definition parabola_a :: "real option \<Rightarrow> real option \<Rightarrow> real option \<Rightarrow> real option" where
  \<comment> \<open>\<open>(x1 + x3 - 2 * x2) / 2\<close>; \<open>None\<close> stands for \<open>NaN\<close>\<close>
  "parabola_a x1 x2 x3 =
     (case (x1, x2, x3) of
        (Some v1, Some v2, Some v3) \<Rightarrow> Some ((v1 + v3 - 2 * v2) / 2)
      | _ \<Rightarrow> None)"

definition parabola_b :: "real option \<Rightarrow> real option \<Rightarrow> real option" where
  \<comment> \<open>\<open>(x3 - x1) / 2\<close>; \<open>None\<close> stands for \<open>NaN\<close>\<close>
  "parabola_b x1 x3 =
     (case (x1, x3) of (Some v1, Some v3) \<Rightarrow> Some ((v3 - v1) / 2) | _ \<Rightarrow> None)"

definition refine :: "int \<Rightarrow> real option \<Rightarrow> real option \<Rightarrow> real" where
  \<comment> \<open>\<open>if (a) T0 = T0 - b / (2 * a)\<close>: \<open>NaN\<close> and \<open>0\<close> are falsy\<close>
  "refine T0 a b =
     (case (a, b) of
        (Some av, Some bv) \<Rightarrow>
          if av \<noteq> 0 then real_of_int T0 - bv / (2 * av) else real_of_int T0
      | _ \<Rightarrow> real_of_int T0)"

definition trimmed :: "real list \<Rightarrow> real list" where
  \<comment> \<open>\<open>buf2 = buffer.slice(r1, r2)\<close> after the two trimming loops\<close>
  "trimmed buffer = js_slice buffer (int (find_r1 buffer 0)) (find_r2 buffer 1)"

definition period :: "real list \<Rightarrow> real" where
  \<comment> \<open>everything from the autocorrelation to the refined \<open>T0\<close>\<close>
  "period buf2 =
     (let c = acf buf2;
          d = decline c 0;
          (maxval, maxpos) = peak_search c d;
          T0 = maxpos;
          x1 = c_at c (T0 - 1);
          x2 = c_at c T0;
          x3 = c_at c (T0 + 1);
          a = parabola_a x1 x2 x3;
          b = parabola_b x1 x3
      in refine T0 a b)"

definition autoCorrelate :: "real list \<Rightarrow> real \<Rightarrow> jsnum" where
  "autoCorrelate buffer sampleRate =
     (if too_quiet buffer then Num (- 1)
      else js_div sampleRate (period (trimmed buffer)))"

section \<open>App.tsx\<close>

datatype GameMode = EASY | HARD

record Note =
  pitch :: string
  frequency :: real
  midi :: int
  duration :: real
  lyric :: "string option"
  note_id :: string

record Song =
  title :: string
  song_notes :: "Note list"

text \<open>
  The component state that the pitch callback and the game-loop effect read and write.
  \<open>matchDuration\<close> is \<open>matchDurationRef.current\<close>; it only ever holds multiples of 16.
\<close>

record app_state =
  song :: "Song option"
  currentIndex :: nat
  gameMode :: GameMode
  isListening :: bool
  completed :: bool
  currentFreq :: real
  centsOff :: real
  userMidi :: "int option"
  matchDuration :: int

definition midiFloat :: "real \<Rightarrow> real" where
  "midiFloat f = 12 * (ln (f / 440) / ln 2) + 69"

definition detectPitch_frequency :: "jsnum \<Rightarrow> app_state \<Rightarrow> app_state" where
  \<comment> \<open>the body of \<open>detectPitch\<close> once \<open>autoCorrelate\<close> has returned \<open>frequency\<close>; only a
      finite value passes both comparisons, so the last case is never taken\<close>
  "detectPitch_frequency freq s =
     (if js_less (Num 80) freq \<and> js_less freq (Num 1200)
      then (case freq of
              Num f \<Rightarrow>
                (let midiNote = js_round (midiFloat f);
                     cents = (midiFloat f - real_of_int midiNote) * 100
                 in s\<lparr>currentFreq := f, userMidi := Some midiNote, centsOff := cents\<rparr>)
            | _ \<Rightarrow> s)
      else s\<lparr>currentFreq := 0, userMidi := None\<rparr>)"

definition detectPitch :: "(real list \<times> real) option \<Rightarrow> app_state \<Rightarrow> app_state" where
  \<comment> \<open>\<open>None\<close>: the analyser or the audio context is missing, the callback returns at once\<close>
  "detectPitch analyser s =
     (case analyser of
        None \<Rightarrow> s
      | Some (buffer, sampleRate) \<Rightarrow> detectPitch_frequency (autoCorrelate buffer sampleRate) s)"

definition stopListening :: "app_state \<Rightarrow> app_state" where
  "stopListening s = s\<lparr>isListening := False, currentFreq := 0\<rparr>"

definition gameLoop :: "app_state \<Rightarrow> app_state" where
  \<comment> \<open>one run of the game-loop effect\<close>
  "gameLoop s =
     (case song s of
        None \<Rightarrow> s
      | Some sg \<Rightarrow>
          if completed s \<or> \<not> isListening s then s
          else (case userMidi s of
                  None \<Rightarrow> s
                | Some um \<Rightarrow>
                    if \<not> currentIndex s < length (song_notes sg) then s
                    else
                      (let targetNote = song_notes sg ! currentIndex s;
                           noteMatch = (um = midi targetNote);
                           tolerance = (if gameMode s = EASY then 50 else 25);
                           isTuneOkay = (\<bar>centsOff s\<bar> \<le> tolerance);
                           md = (if noteMatch \<and> isTuneOkay then matchDuration s + 16
                                 else max 0 (matchDuration s - 16));
                           requiredHoldTime = (if gameMode s = EASY then 20 else 80)
                       in if md > requiredHoldTime
                          then (if int (currentIndex s) < int (length (song_notes sg)) - 1
                                then s\<lparr>matchDuration := 0, currentIndex := currentIndex s + 1\<rparr>
                                else stopListening (s\<lparr>matchDuration := 0, completed := True\<rparr>))
                          else s\<lparr>matchDuration := md\<rparr>)))"

definition restart :: "bool \<Rightarrow> app_state \<Rightarrow> app_state" where
  \<comment> \<open>\<open>micGranted\<close>: whether \<open>startListening\<close>, when called, obtains the microphone\<close>
  "restart micGranted s =
     (let s' = s\<lparr>currentIndex := 0, completed := False, matchDuration := 0\<rparr>
      in if \<not> isListening s' \<and> micGranted then s'\<lparr>isListening := True\<rparr> else s')"

definition toggleGameMode :: "app_state \<Rightarrow> app_state" where
  \<comment> \<open>the mode button: \<open>setGameMode(prev => prev === EASY ? HARD : EASY)\<close>\<close>
  "toggleGameMode s = s\<lparr>gameMode := (if gameMode s = EASY then HARD else EASY)\<rparr>"

text \<open>
  The game-loop effect is keyed on the dependency array
  \<open>[currentFreq, userMidi, centsOff, currentIndex, song, gameMode, isListening, completed]\<close>:
  after a render it runs only if one of these values differs from the previous render.
  The state updates of one callback are applied together before the next render.
  \<open>matchDurationRef\<close> is a ref and is not a dependency.
\<close>

definition effect_deps ::
  "app_state \<Rightarrow> real \<times> int option \<times> real \<times> nat \<times> Song option \<times> GameMode \<times> bool \<times> bool" where
  "effect_deps s =
     (currentFreq s, userMidi s, centsOff s, currentIndex s, song s, gameMode s,
      isListening s, completed s)"

definition steps_left :: "app_state \<Rightarrow> nat" where
  \<comment> \<open>how many advances and completions are still possible: the variant of \<open>rerender\<close>\<close>
  "steps_left s =
     (case song s of
        None \<Rightarrow> 0
      | Some sg \<Rightarrow>
          if completed s then 0 else Suc (length (song_notes sg) - currentIndex s))"

function rerender :: "app_state \<Rightarrow> app_state \<Rightarrow> app_state" where
  \<comment> \<open>render \<open>s\<close> after \<open>prev\<close>: the effect runs if a dependency changed, and what it
      sets is rendered in turn\<close>
  "rerender prev s =
     (if effect_deps s = effect_deps prev then s else rerender s (gameLoop s))"
  by pat_completeness auto
termination
proof (relation "measure (\<lambda>(prev, s).
    2 * steps_left s + (if effect_deps s = effect_deps prev then 0 else 1))")
  show "wf (measure (\<lambda>(prev, s).
    2 * steps_left s + (if effect_deps s = effect_deps prev then 0 else 1)))"
    by simp
next
  fix prev s :: app_state
  assume changed: "effect_deps s \<noteq> effect_deps prev"
  have variant: "steps_left (gameLoop s) < steps_left s
      \<or> (effect_deps (gameLoop s) = effect_deps s \<and> steps_left (gameLoop s) = steps_left s)"
  proof (cases "song s")
    case None
    then have "gameLoop s = s"
      by (simp add: gameLoop_def)
    then show ?thesis
      by simp
  next
    case (Some sg)
    show ?thesis
    proof (cases "completed s \<or> \<not> isListening s \<or> userMidi s = None
        \<or> \<not> currentIndex s < length (song_notes sg)")
      case True
      with Some have "gameLoop s = s"
        by (cases "userMidi s") (auto simp add: gameLoop_def)
      then show ?thesis
        by simp
    next
      case False
      then obtain um where um: "userMidi s = Some um"
        by auto
      from False have r: "\<not> completed s" "isListening s"
        "currentIndex s < length (song_notes sg)"
        by simp_all
      define md where "md = (if um = midi (song_notes sg ! currentIndex s)
                   \<and> \<bar>centsOff s\<bar> \<le> (if gameMode s = EASY then 50 else 25)
                then matchDuration s + 16 else max 0 (matchDuration s - 16))"
      have "int (currentIndex s) < int (length (song_notes sg)) - 1
          \<longleftrightarrow> Suc (currentIndex s) < length (song_notes sg)"
        by linarith
      with Some r um have g: "gameLoop s =
          (if md > (if gameMode s = EASY then 20 else 80)
           then (if Suc (currentIndex s) < length (song_notes sg)
                 then s\<lparr>matchDuration := 0, currentIndex := currentIndex s + 1\<rparr>
                 else stopListening (s\<lparr>matchDuration := 0, completed := True\<rparr>))
           else s\<lparr>matchDuration := md\<rparr>)"
        by (simp add: gameLoop_def Let_def md_def)
      show ?thesis
      proof (cases "md > (if gameMode s = EASY then 20 else 80)")
        case False
        with g have "gameLoop s = s\<lparr>matchDuration := md\<rparr>"
          by simp
        then show ?thesis
          by (simp add: effect_deps_def steps_left_def split: option.splits)
      next
        case True
        show ?thesis
        proof (cases "Suc (currentIndex s) < length (song_notes sg)")
          case True
          with g \<open>md > (if gameMode s = EASY then 20 else 80)\<close>
          have "gameLoop s = s\<lparr>matchDuration := 0, currentIndex := currentIndex s + 1\<rparr>"
            by simp
          with True Some r have "steps_left (gameLoop s) < steps_left s"
            by (simp add: steps_left_def)
          then show ?thesis ..
        next
          case False
          with g \<open>md > (if gameMode s = EASY then 20 else 80)\<close>
          have "gameLoop s = stopListening (s\<lparr>matchDuration := 0, completed := True\<rparr>)"
            by simp
          with Some r have "steps_left (gameLoop s) < steps_left s"
            by (simp add: steps_left_def stopListening_def)
          then show ?thesis ..
        qed
      qed
    qed
  qed
  with changed
  have "2 * steps_left (gameLoop s) + (if effect_deps (gameLoop s) = effect_deps s then 0 else 1)
     < 2 * steps_left s + (if effect_deps s = effect_deps prev then 0 else (1::nat))"
    by auto
  then show "((s, gameLoop s), (prev, s)) \<in> measure (\<lambda>(prev, s).
    2 * steps_left s + (if effect_deps s = effect_deps prev then 0 else 1))"
    by (simp only: in_measure prod.case)
qed

declare rerender.simps [simp del]

definition tick :: "jsnum \<Rightarrow> app_state \<Rightarrow> app_state" where
  \<comment> \<open>one animation frame on the rendered state \<open>s\<close>: the pitch callback stores the
      observation, then the component renders\<close>
  "tick freq s = rerender s (detectPitch_frequency freq s)"

text \<open>
  What can happen to a rendered session: an animation frame whose detector result is
  given, or a press of the mode button.
\<close>

datatype event = Frame jsnum | ToggleMode

fun apply_event :: "app_state \<Rightarrow> event \<Rightarrow> app_state" where
  "apply_event s (Frame freq) = tick freq s"
| "apply_event s ToggleMode = rerender s (toggleGameMode s)"

definition run :: "event list \<Rightarrow> app_state \<Rightarrow> app_state" where
  "run evs s = foldl apply_event s evs"

subsection \<open>A session on a melody of concert A's\<close>

definition a4 :: Note where
  "a4 = \<lparr>pitch = ''A4'', frequency = 440, midi = 69, duration = 4, lyric = None,
          note_id = ''note-0''\<rparr>"


definition listening :: "Note list \<Rightarrow> GameMode \<Rightarrow> int \<Rightarrow> app_state" where
  \<comment> \<open>the state once a melody is loaded and the microphone is on, with a given hold\<close>
  "listening ns mode held =
     \<lparr>song = Some \<lparr>title = ''Scale'', song_notes = ns\<rparr>, currentIndex = 0, gameMode = mode,
      isListening = True, completed = False, currentFreq = 0, centsOff = 0,
      userMidi = None, matchDuration = held\<rparr>"

section \<open>The trimming bounds as the specification words them\<close>

definition spec_leading_bound :: "real list \<Rightarrow> nat" where
  \<comment> \<open>index of the first sample of the first half whose absolute value exceeds the
      threshold; the start of the buffer when there is none\<close>
  "spec_leading_bound buffer =
     (case find (\<lambda>i. \<bar>buffer ! i\<bar> > thres) [0..<(length buffer + 1) div 2] of
        None \<Rightarrow> 0
      | Some i \<Rightarrow> i)"

declare find_r1.simps [simp del] find_r2.simps [simp del] decline.simps [simp del]

section \<open>Evaluating the noise gate\<close>

lemma too_quiet_code [code]:
  "too_quiet buffer =
     (length buffer \<noteq> 0 \<and> sum_squares buffer / real (length buffer) < 1 / 10000)"
proof -
  have "sqrt x < 1 / 100 \<longleftrightarrow> x < 1 / 10000" for x :: real
  proof -
    have "sqrt (1 / 10000) = 1 / 100"
      by (rule real_sqrt_unique) (simp_all add: power2_eq_square)
    moreover have "sqrt x < sqrt (1 / 10000) \<longleftrightarrow> x < 1 / 10000"
      by (rule real_sqrt_less_iff)
    ultimately show ?thesis
      by (simp only:)
  qed
  then show ?thesis
    by (simp add: too_quiet_def rms_def)
qed

section \<open>Rendering and the effect\<close>

lemma rerender_same: "effect_deps s' = effect_deps prev \<Longrightarrow> rerender prev s' = s'"
  by (simp add: rerender.simps [of prev s'])

lemma rerender_changed:
  "effect_deps s' \<noteq> effect_deps prev \<Longrightarrow> rerender prev s' = rerender s' (gameLoop s')"
  by (simp add: rerender.simps [of prev s'])

lemma rerender_once:
  "effect_deps s' \<noteq> effect_deps prev \<Longrightarrow> effect_deps (gameLoop s') = effect_deps s' \<Longrightarrow>
     rerender prev s' = gameLoop s'"
  by (simp add: rerender_changed rerender_same)


section \<open>Completed sessions\<close>

lemma gameLoop_completed: "completed s \<Longrightarrow> gameLoop s = s"
  by (simp add: gameLoop_def split: option.splits)

lemma rerender_completed: "completed s' \<Longrightarrow> rerender prev s' = s'"
proof (cases "effect_deps s' = effect_deps prev")
  case True
  then show ?thesis
    by (rule rerender_same)
next
  case False
  assume "completed s'"
  then have "gameLoop s' = s'"
    by (rule gameLoop_completed)
  with False show ?thesis
    by (simp add: rerender_once)
qed

lemma detectPitch_frequency_progress:
  "completed (detectPitch_frequency freq s) = completed s"
  "currentIndex (detectPitch_frequency freq s) = currentIndex s"
  "matchDuration (detectPitch_frequency freq s) = matchDuration s"
  "song (detectPitch_frequency freq s) = song s"
  "gameMode (detectPitch_frequency freq s) = gameMode s"
  "isListening (detectPitch_frequency freq s) = isListening s"
  by (simp_all add: detectPitch_frequency_def Let_def split: jsnum.splits)

lemma apply_event_completed:
  assumes "completed s"
  shows "completed (apply_event s ev) \<and> currentIndex (apply_event s ev) = currentIndex s
    \<and> matchDuration (apply_event s ev) = matchDuration s"
proof (cases ev)
  case (Frame freq)
  from assms have "completed (detectPitch_frequency freq s)"
    by (simp add: detectPitch_frequency_progress)
  then have "tick freq s = detectPitch_frequency freq s"
    unfolding tick_def by (rule rerender_completed)
  with assms Frame show ?thesis
    by (simp add: detectPitch_frequency_progress)
next
  case ToggleMode
  from assms have "completed (toggleGameMode s)"
    by (simp add: toggleGameMode_def)
  then have "rerender s (toggleGameMode s) = toggleGameMode s"
    by (rule rerender_completed)
  with assms ToggleMode show ?thesis
    by (simp add: toggleGameMode_def)
qed

lemma run_completed:
  "completed s \<Longrightarrow>
     completed (run evs s) \<and> currentIndex (run evs s) = currentIndex s
     \<and> matchDuration (run evs s) = matchDuration s"
proof (induction evs arbitrary: s)
  case Nil
  then show ?case by (simp add: run_def)
next
  case (Cons ev evs)
  from Cons.prems have step: "completed (apply_event s ev)"
    "currentIndex (apply_event s ev) = currentIndex s"
    "matchDuration (apply_event s ev) = matchDuration s"
    using apply_event_completed [of s ev] by simp_all
  have "run (ev # evs) s = run evs (apply_event s ev)"
    by (simp add: run_def)
  with Cons.IH [OF step(1)] step show ?case
    by simp
qed

text \<open>
  C9. Once \<open>completed\<close> is true, no animation frame (whatever the detector returned) and
  no change of difficulty alters \<open>currentIndex\<close>, the accumulated hold or \<open>completed\<close>;
  \<open>restart\<close> then puts the three back to \<open>0\<close>, \<open>0\<close> and \<open>false\<close>.
\<close>

theorem completed_is_terminal:
  "completed s \<Longrightarrow>
     currentIndex (run evs s) = currentIndex s
     \<and> matchDuration (run evs s) = matchDuration s
     \<and> completed (run evs s)
     \<and> currentIndex (restart micGranted (run evs s)) = 0
     \<and> matchDuration (restart micGranted (run evs s)) = 0
     \<and> \<not> completed (restart micGranted (run evs s))"
  using run_completed [of s evs] by (simp add: restart_def Let_def)

theorem completed_is_terminal_witness:
  "completed ((listening [a4] HARD 0)\<lparr>currentIndex := 0, completed := True\<rparr>)
   \<and> completed (run [Frame (Num 440), ToggleMode, Frame NaN]
        ((listening [a4] HARD 0)\<lparr>currentIndex := 0, completed := True\<rparr>))
   \<and> \<not> completed (restart True (run [Frame (Num 440), ToggleMode, Frame NaN]
        ((listening [a4] HARD 0)\<lparr>currentIndex := 0, completed := True\<rparr>)))"
proof -
  have h: "completed ((listening [a4] HARD 0)\<lparr>currentIndex := 0, completed := True\<rparr>)"
    by (simp add: listening_def)
  show ?thesis
    using h completed_is_terminal [OF h, of "[Frame (Num 440), ToggleMode, Frame NaN]" True]
    by simp
qed

section \<open>Decay of the hold\<close>

lemma gameLoop_no_pitch: "userMidi s = None \<Longrightarrow> gameLoop s = s"
  by (simp add: gameLoop_def split: option.splits)

lemma gameLoop_mismatch:
  assumes "song s = Some sg" "\<not> completed s" "isListening s"
    and "currentIndex s < length (song_notes sg)" and "userMidi s = Some um"
    and "um \<noteq> midi (song_notes sg ! currentIndex s)
         \<or> \<bar>centsOff s\<bar> > (if gameMode s = EASY then 50 else 25)"
  shows "matchDuration (gameLoop s) =
           (if max 0 (matchDuration s - 16) > (if gameMode s = EASY then 20 else 80) then 0
            else max 0 (matchDuration s - 16))"
proof (cases "gameMode s")
  case EASY
  with assms show ?thesis
    by (auto simp add: gameLoop_def Let_def stopListening_def)
next
  case HARD
  with assms show ?thesis
    by (auto simp add: gameLoop_def Let_def stopListening_def)
qed

text \<open>
  C1 (amended). On a run of the game-loop effect that reaches the matcher (melody loaded,
  not completed, listening, target note present) with a detected pitch code, if the code
  differs from the target's or the tuning error exceeds the tolerance, the hold becomes
  \<open>max 0 (hold - 16)\<close>, which is never negative, and is then reset to \<open>0\<close> if that value
  still exceeds the required hold. With no detected pitch code the effect returns before
  the update: the whole state, and so the hold, is unchanged.
\<close>

theorem mismatch_decays_hold:
  "(userMidi s = None \<longrightarrow> gameLoop s = s)
   \<and> (song s = Some sg \<and> \<not> completed s \<and> isListening s
        \<and> currentIndex s < length (song_notes sg) \<and> userMidi s = Some um
        \<and> (um \<noteq> midi (song_notes sg ! currentIndex s)
             \<or> \<bar>centsOff s\<bar> > (if gameMode s = EASY then 50 else 25))
      \<longrightarrow> matchDuration (gameLoop s) =
            (if max 0 (matchDuration s - 16) > (if gameMode s = EASY then 20 else 80) then 0
             else max 0 (matchDuration s - 16))
          \<and> 0 \<le> matchDuration (gameLoop s))"
  using gameLoop_no_pitch [of s] gameLoop_mismatch [of s sg um]
  by (auto split: if_splits)

text \<open>
  C1 as stated fails on a frame without pitch: the detector's \<open>-1\<close> gives no pitch
  code, and a hold of 32 stays 32 instead of decaying to 16. This is so when the stored
  observation was already empty (the effect does not run) and when a pitch was stored
  before (the effect runs and returns at its guard).
\<close>

theorem no_pitch_tick_counterexample:
  "userMidi (detectPitch_frequency (Num (- 1)) (listening [a4] HARD 32)) = None
   \<and> matchDuration (listening [a4] HARD 32) = 32
   \<and> matchDuration (tick (Num (- 1)) (listening [a4] HARD 32)) = 32
   \<and> matchDuration (tick (Num (- 1)) (listening [a4] HARD 32))
       \<noteq> max 0 (matchDuration (listening [a4] HARD 32) - 16)
   \<and> effect_deps (detectPitch_frequency (Num (- 1))
         ((listening [a4] HARD 32)\<lparr>currentFreq := 440, userMidi := Some 69\<rparr>))
       \<noteq> effect_deps ((listening [a4] HARD 32)\<lparr>currentFreq := 440, userMidi := Some 69\<rparr>)
   \<and> matchDuration (tick (Num (- 1))
         ((listening [a4] HARD 32)\<lparr>currentFreq := 440, userMidi := Some 69\<rparr>)) = 32"
proof -
  let ?s = "listening [a4] HARD 32"
  let ?p = "(listening [a4] HARD 32)\<lparr>currentFreq := 440, userMidi := Some 69\<rparr>"
  have quiet: "effect_deps (detectPitch_frequency (Num (- 1)) ?s) = effect_deps ?s"
    by (simp add: detectPitch_frequency_def effect_deps_def listening_def)
  then have t1: "tick (Num (- 1)) ?s = detectPitch_frequency (Num (- 1)) ?s"
    unfolding tick_def by (rule rerender_same)
  have changed: "effect_deps (detectPitch_frequency (Num (- 1)) ?p) \<noteq> effect_deps ?p"
    by (simp add: detectPitch_frequency_def effect_deps_def listening_def)
  have "userMidi (detectPitch_frequency (Num (- 1)) ?p) = None"
    by (simp add: detectPitch_frequency_def)
  then have "gameLoop (detectPitch_frequency (Num (- 1)) ?p) = detectPitch_frequency (Num (- 1)) ?p"
    by (rule gameLoop_no_pitch)
  with changed have t2: "tick (Num (- 1)) ?p = detectPitch_frequency (Num (- 1)) ?p"
    unfolding tick_def by (simp add: rerender_once)
  show ?thesis
    unfolding t1 t2 using changed
    by (simp add: detectPitch_frequency_def listening_def)
qed

theorem mismatch_decays_hold_witness:
  "userMidi (listening [a4] HARD 32) = None
   \<and> gameLoop (listening [a4] HARD 32) = listening [a4] HARD 32
   \<and> userMidi ((listening [a4] HARD 32)\<lparr>userMidi := Some 70\<rparr>) = Some 70
   \<and> 70 \<noteq> midi ([a4] ! 0)
   \<and> matchDuration (gameLoop ((listening [a4] HARD 32)\<lparr>userMidi := Some 70\<rparr>)) = 16"
proof -
  let ?s = "listening [a4] HARD 32"
  let ?sg = "\<lparr>title = ''Scale'', song_notes = [a4]\<rparr>"
  have none: "userMidi ?s = None"
    by (simp add: listening_def)
  have hyps: "song (?s\<lparr>userMidi := Some 70\<rparr>) = Some ?sg
      \<and> \<not> completed (?s\<lparr>userMidi := Some 70\<rparr>) \<and> isListening (?s\<lparr>userMidi := Some 70\<rparr>)
      \<and> currentIndex (?s\<lparr>userMidi := Some 70\<rparr>) < length (song_notes ?sg)
      \<and> userMidi (?s\<lparr>userMidi := Some 70\<rparr>) = Some 70
      \<and> (70 \<noteq> midi (song_notes ?sg ! currentIndex (?s\<lparr>userMidi := Some 70\<rparr>))
           \<or> \<bar>centsOff (?s\<lparr>userMidi := Some 70\<rparr>)\<bar>
               > (if gameMode (?s\<lparr>userMidi := Some 70\<rparr>) = EASY then 50 else 25))"
    by (simp add: listening_def a4_def)
  from none mismatch_decays_hold [of ?s ?sg 70]
  have "gameLoop ?s = ?s"
    by blast
  moreover from hyps mismatch_decays_hold [of "?s\<lparr>userMidi := Some 70\<rparr>" ?sg 70]
  have "matchDuration (gameLoop (?s\<lparr>userMidi := Some 70\<rparr>)) = 16"
    by (simp add: listening_def)
  ultimately show ?thesis
    by (simp add: listening_def a4_def)
qed

section \<open>Holding a note\<close>

lemma detect_in_band:
  assumes "80 < f" "f < 1200"
  shows "detectPitch_frequency (Num f) s =
           s\<lparr>currentFreq := f, userMidi := Some (js_round (midiFloat f)),
             centsOff := (midiFloat f - real_of_int (js_round (midiFloat f))) * 100\<rparr>"
  using assms by (simp add: detectPitch_frequency_def Let_def)













lemma midiFloat_440: "midiFloat 440 = 69"
  by (simp add: midiFloat_def)

lemma js_round_of_int: "js_round (real_of_int n) = n"
  by (simp add: js_round_def)


















section \<open>Classifying a frequency\<close>

lemma js_round_bounds: "real_of_int (js_round x) - 1 / 2 \<le> x \<and> x < real_of_int (js_round x) + 1 / 2"
  unfolding js_round_def by linarith

lemma cents_range:
  "- 50 \<le> (x - real_of_int (js_round x)) * 100 \<and> (x - real_of_int (js_round x)) * 100 < 50"
  using js_round_bounds [of x] by simp

lemma midiFloat_log: "midiFloat f = 12 * log 2 (f / 440) + 69"
  by (simp add: midiFloat_def log_def)

lemma getNoteFromFrequency_midiFloat: "getNoteFromFrequency f = js_round (midiFloat f)"
proof -
  have "\<lfloor>x + 69 + 1 / 2\<rfloor> = \<lfloor>x + 1 / 2\<rfloor> + 69" for x :: real
    by linarith
  then show ?thesis
    by (simp add: getNoteFromFrequency_def midiFloat_def js_round_def Let_def)
qed

text \<open>
  C5 (amended). For a frequency \<open>f > 0\<close>, with \<open>p = 12 * log2 (f / 440) + 69\<close>, the pitch
  code is \<open>round p\<close>; for a frequency that the pitch callback classifies (inside the
  vocal band) the stored tuning error is \<open>(p - round p) * 100\<close>, and it lies in the
  half-open interval from \<open>-50\<close> inclusive to \<open>+50\<close> exclusive, because \<open>Math.round\<close>
  rounds a tie upwards.
\<close>

theorem tuning_error_range:
  "(0 < f \<longrightarrow> midiFloat f = 12 * log 2 (f / 440) + 69
       \<and> getNoteFromFrequency f = js_round (midiFloat f))
   \<and> (80 < f \<and> f < 1200 \<longrightarrow>
        userMidi (detectPitch_frequency (Num f) s) = Some (js_round (midiFloat f))
        \<and> centsOff (detectPitch_frequency (Num f) s)
            = (midiFloat f - real_of_int (js_round (midiFloat f))) * 100
        \<and> - 50 \<le> centsOff (detectPitch_frequency (Num f) s)
        \<and> centsOff (detectPitch_frequency (Num f) s) < 50)"
  using cents_range [of "midiFloat f"]
  by (simp add: detect_in_band midiFloat_log getNoteFromFrequency_midiFloat)

lemma quarter_tone_band:
  "(80::real) < 440 * 2 powr (1 / 24) \<and> 440 * 2 powr (1 / 24) < (1200::real)"
proof -
  have "(2::real) powr 0 \<le> 2 powr (1 / 24)" "(2::real) powr (1 / 24) \<le> 2 powr 1"
    by (rule powr_mono; simp)+
  then have "(1::real) \<le> 2 powr (1 / 24)" "(2::real) powr (1 / 24) \<le> 2"
    by simp_all
  then show ?thesis
    by linarith
qed

lemma midiFloat_quarter_tone: "midiFloat (440 * 2 powr (1 / 24)) = 139 / 2"
  by (simp add: midiFloat_def)

text \<open>
  C5 as stated fails a quarter tone above concert A: \<open>p = 69.5\<close> is rounded to 70 and
  the tuning error is exactly \<open>-50\<close>, outside the interval that is open at \<open>-50\<close>.
\<close>

theorem tuning_error_minus_fifty_counterexample:
  "(0::real) < 440 * 2 powr (1 / 24)
   \<and> userMidi (detectPitch_frequency (Num (440 * 2 powr (1 / 24))) (listening [a4] EASY 0))
       = Some 70
   \<and> centsOff (detectPitch_frequency (Num (440 * 2 powr (1 / 24))) (listening [a4] EASY 0))
       = - 50
   \<and> \<not> (- 50 < centsOff (detectPitch_frequency (Num (440 * 2 powr (1 / 24)))
         (listening [a4] EASY 0)))"
proof -
  have "js_round (139 / 2) = 70"
    by (simp add: js_round_def)
  then show ?thesis
    using quarter_tone_band
    by (simp add: detect_in_band midiFloat_quarter_tone)
qed

theorem tuning_error_range_witness:
  "(0::real) < 440 \<and> (80::real) < 440 \<and> (440::real) < 1200
   \<and> getNoteFromFrequency 440 = 69
   \<and> userMidi (detectPitch_frequency (Num 440) (listening [a4] EASY 0)) = Some 69
   \<and> centsOff (detectPitch_frequency (Num 440) (listening [a4] EASY 0)) = 0"
  using tuning_error_range [of 440 "listening [a4] EASY 0"] js_round_of_int [of 69]
  by (simp add: midiFloat_440)

lemma midiFloat_getFrequencyFromMidi: "midiFloat (getFrequencyFromMidi c) = real_of_int c"
proof -
  have "ln (2 powr ((real_of_int c - 69) / 12)) / ln 2 = (real_of_int c - 69) / 12"
    by simp
  then have "midiFloat (getFrequencyFromMidi c) = 12 * ((real_of_int c - 69) / 12) + 69"
    by (simp add: midiFloat_def getFrequencyFromMidi_def)
  also have "\<dots> = real_of_int c"
    by argo
  finally show ?thesis .
qed

lemma getFrequencyFromMidi_band:
  assumes "48 \<le> c" "c \<le> 84"
  shows "80 < getFrequencyFromMidi c \<and> getFrequencyFromMidi c < 1200"
proof -
  let ?e = "(real_of_int c - 69) / 12"
  from assms have e: "- 2 \<le> ?e" "?e \<le> 5 / 4"
    by simp_all
  have lo: "(2::real) powr (- 2) \<le> 2 powr ?e"
    using e(1) by (intro powr_mono) simp_all
  have "(2::real) powr (- 2) = 1 / 4"
    by (simp add: powr_minus power2_eq_square)
  with lo have lower: "1 / 4 \<le> (2::real) powr ?e"
    by simp
  have hi: "(2::real) powr ?e \<le> 2 powr (5 / 4)"
    using e(2) by (intro powr_mono) simp_all
  have "(2::real) powr (5 / 4) < 30 / 11"
  proof (rule ccontr)
    assume "\<not> (2::real) powr (5 / 4) < 30 / 11"
    then have "(30 / 11 :: real) ^ 4 \<le> (2 powr (5 / 4)) ^ 4"
      by (intro power_mono) simp_all
    moreover have "((2::real) powr (5 / 4)) ^ 4 = 2 powr 5"
      by (simp add: powr_powr flip: powr_realpow)
    moreover have "(2::real) powr 5 = 32"
      using powr_realpow [of "2::real" 5] by simp
    ultimately show False
      by (simp add: power4_eq_xxxx)
  qed
  with hi have upper: "(2::real) powr ?e < 30 / 11"
    by linarith
  from lower upper show ?thesis
    unfolding getFrequencyFromMidi_def by linarith
qed

text \<open>
  C6. For every integer pitch code \<open>c\<close> from 48 to 84, classifying
  \<open>getFrequencyFromMidi c = 440 * 2 powr ((c - 69) / 12)\<close> gives back exactly \<open>c\<close>, both
  through \<open>getNoteFromFrequency\<close> and through the pitch callback, whose tuning error is
  then \<open>0\<close>.
\<close>

theorem code_frequency_inverse:
  "48 \<le> c \<and> c \<le> 84 \<Longrightarrow>
     getNoteFromFrequency (getFrequencyFromMidi c) = c
     \<and> userMidi (detectPitch_frequency (Num (getFrequencyFromMidi c)) s) = Some c
     \<and> centsOff (detectPitch_frequency (Num (getFrequencyFromMidi c)) s) = 0"
  using getFrequencyFromMidi_band [of c]
  by (simp add: detect_in_band getNoteFromFrequency_midiFloat midiFloat_getFrequencyFromMidi
      js_round_of_int)

theorem code_frequency_inverse_witness:
  "(48::int) \<le> 60 \<and> (60::int) \<le> 84
   \<and> getNoteFromFrequency (getFrequencyFromMidi 60) = 60
   \<and> userMidi (detectPitch_frequency (Num (getFrequencyFromMidi 60)) (listening [a4] EASY 0))
       = Some 60
   \<and> centsOff (detectPitch_frequency (Num (getFrequencyFromMidi 60)) (listening [a4] EASY 0)) = 0"
  using code_frequency_inverse [of 60 "listening [a4] EASY 0"] by simp

lemma log2_half: "log 2 (1 / 2) = - 1"
proof -
  have "ln (1 / 2 :: real) = - ln 2"
    using ln_inverse [of "2::real"] by (simp add: inverse_eq_divide)
  then show ?thesis
    by (simp add: log_def)
qed

text \<open>
  C7. The stored pitch code is \<open>None\<close> exactly when the detector returned the sentinel
  \<open>-1\<close> or a value that is not strictly between 80 and 1200 (a non-finite value
  included); this is the ordinary else-branch, not an error. Otherwise it is the pitch
  code of the detected frequency: \<open>12 * log2 (f / 440) + 69\<close> rounded to the nearest integer,
  a tie going up.
\<close>

theorem pitch_code_none_iff:
  "(userMidi (detectPitch_frequency (Num f) s) = None \<longleftrightarrow> f = - 1 \<or> f \<le> 80 \<or> 1200 \<le> f)
   \<and> (80 < f \<and> f < 1200 \<longrightarrow>
        userMidi (detectPitch_frequency (Num f) s) = Some \<lfloor>12 * log 2 (f / 440) + 69 + 1 / 2\<rfloor>)
   \<and> userMidi (detectPitch_frequency NaN s) = None
   \<and> userMidi (detectPitch_frequency PosInf s) = None
   \<and> userMidi (detectPitch_frequency NegInf s) = None"
proof (intro conjI impI)
  show "userMidi (detectPitch_frequency (Num f) s) = None \<longleftrightarrow> f = - 1 \<or> f \<le> 80 \<or> 1200 \<le> f"
    by (auto simp add: detectPitch_frequency_def Let_def)
  show "userMidi (detectPitch_frequency (Num f) s) = Some \<lfloor>12 * log 2 (f / 440) + 69 + 1 / 2\<rfloor>"
    if "80 < f \<and> f < 1200"
  proof -
    from that have "userMidi (detectPitch_frequency (Num f) s) = Some (js_round (midiFloat f))"
      by (simp add: detect_in_band)
    then show ?thesis
      by (simp only: js_round_def midiFloat_log)
  qed
  show "userMidi (detectPitch_frequency NaN s) = None"
    "userMidi (detectPitch_frequency PosInf s) = None"
    "userMidi (detectPitch_frequency NegInf s) = None"
    by (simp_all add: detectPitch_frequency_def)
qed

theorem pitch_code_none_iff_witness:
  "userMidi (detectPitch_frequency (Num (- 1)) (listening [a4] EASY 0)) = None
   \<and> userMidi (detectPitch_frequency (Num 80) (listening [a4] EASY 0)) = None
   \<and> (80::real) < 220 \<and> (220::real) < 1200
   \<and> userMidi (detectPitch_frequency (Num 220) (listening [a4] EASY 0)) = Some 57
   \<and> userMidi (detectPitch_frequency (Num 440) (listening [a4] EASY 0)) = Some 69
   \<and> userMidi (detectPitch_frequency (Num 880) (listening [a4] EASY 0)) = Some 81"
proof -
  have "log 2 (2::real) = 1"
    by simp
  with log2_half
    pitch_code_none_iff [of "- 1" "listening [a4] EASY 0"]
    pitch_code_none_iff [of 80 "listening [a4] EASY 0"]
    pitch_code_none_iff [of 220 "listening [a4] EASY 0"]
    pitch_code_none_iff [of 440 "listening [a4] EASY 0"]
    pitch_code_none_iff [of 880 "listening [a4] EASY 0"]
  show ?thesis
    by simp
qed

section \<open>The noise gate\<close>

lemma foldl_squares: "foldl (\<lambda>acc val. acc + val * val) a xs = a + sum_list (map (\<lambda>v. v * v) xs)"
  by (induction xs arbitrary: a) (simp_all add: add.assoc)

lemma sum_squares_sum_list: "sum_squares buffer = sum_list (map (\<lambda>v. v * v) buffer)"
  by (simp add: sum_squares_def foldl_squares)

lemma sum_squares_zero: "\<forall>v\<in>set buffer. v = 0 \<Longrightarrow> sum_squares buffer = 0"
  unfolding sum_squares_sum_list by (induction buffer) simp_all

text \<open>
  C8. A buffer whose root-mean-square amplitude is below \<open>0.01\<close>, in particular a
  non-empty buffer of zeros, makes \<open>autoCorrelate\<close> return \<open>-1\<close> whatever the sample rate:
  the result is fixed by the gate alone, before trimming and autocorrelation.
\<close>

theorem quiet_buffer_no_pitch:
  "(js_less (rms buffer) (Num 0.01) \<longrightarrow> autoCorrelate buffer sampleRate = Num (- 1))
   \<and> (buffer \<noteq> [] \<and> sqrt (sum_list (map (\<lambda>v. v * v) buffer) / real (length buffer)) < 0.01
        \<longrightarrow> autoCorrelate buffer sampleRate = Num (- 1))
   \<and> (buffer \<noteq> [] \<and> (\<forall>v\<in>set buffer. v = 0)
        \<longrightarrow> autoCorrelate buffer sampleRate = Num (- 1))"
proof (intro conjI impI)
  assume "js_less (rms buffer) (Num 0.01)"
  then show "autoCorrelate buffer sampleRate = Num (- 1)"
    by (simp add: autoCorrelate_def too_quiet_def)
next
  assume "buffer \<noteq> [] \<and> sqrt (sum_list (map (\<lambda>v. v * v) buffer) / real (length buffer)) < 0.01"
  then have "js_less (rms buffer) (Num 0.01)"
    by (simp add: rms_def sum_squares_sum_list)
  then show "autoCorrelate buffer sampleRate = Num (- 1)"
    by (simp add: autoCorrelate_def too_quiet_def)
next
  assume "buffer \<noteq> [] \<and> (\<forall>v\<in>set buffer. v = 0)"
  then have "js_less (rms buffer) (Num 0.01)"
    by (simp add: rms_def sum_squares_zero)
  then show "autoCorrelate buffer sampleRate = Num (- 1)"
    by (simp add: autoCorrelate_def too_quiet_def)
qed

theorem quiet_buffer_no_pitch_witness:
  "js_less (rms [0, 0, 0, 0]) (Num 0.01)
   \<and> [0, 0, 0, 0 :: real] \<noteq> []
   \<and> sqrt (sum_list (map (\<lambda>v. v * v) [0, 0, 0, 0]) / real (length [0, 0, 0, 0 :: real])) < 0.01
   \<and> set [0, 0, 0, 0 :: real] = {0}
   \<and> autoCorrelate [0, 0, 0, 0] 44100 = Num (- 1)"
proof -
  have h: "js_less (rms [0, 0, 0, 0]) (Num 0.01)"
    by (simp add: rms_def sum_squares_def)
  have "[0, 0, 0, 0 :: real] \<noteq> []
     \<and> sqrt (sum_list (map (\<lambda>v. v * v) [0, 0, 0, 0]) / real (length [0, 0, 0, 0 :: real])) < 0.01"
    by simp
  with h quiet_buffer_no_pitch [of "[0, 0, 0, 0]" 44100] show ?thesis
    by simp
qed

section \<open>Trimming the buffer\<close>

lemma find_r1_find:
  "find_r1 buffer i =
     (case find (\<lambda>j. \<bar>buffer ! j\<bar> < thres) [i..<(length buffer + 1) div 2] of
        None \<Rightarrow> 0
      | Some j \<Rightarrow> j)"
proof (induction buffer i rule: find_r1.induct)
  case (1 buffer i)
  show ?case
  proof (cases "2 * i < length buffer")
    case True
    then have "i < (length buffer + 1) div 2"
      by linarith
    then have upt: "[i..<(length buffer + 1) div 2] = i # [Suc i..<(length buffer + 1) div 2]"
      by (rule upt_conv_Cons)
    show ?thesis
    proof (cases "\<bar>buffer ! i\<bar> < thres")
      case True
      with \<open>2 * i < length buffer\<close> upt show ?thesis
        by (simp add: find_r1.simps [of buffer i])
    next
      case False
      with \<open>2 * i < length buffer\<close> upt "1.IH" show ?thesis
        by (simp add: find_r1.simps [of buffer i])
    qed
  next
    case False
    then have "\<not> i < (length buffer + 1) div 2"
      by linarith
    with False show ?thesis
      by (simp add: find_r1.simps [of buffer i])
  qed
qed

lemma find_r2_find:
  "find_r2 buffer i =
     (case find (\<lambda>j. \<bar>buffer ! (length buffer - j)\<bar> < thres)
             [i..<(length buffer + 1) div 2] of
        None \<Rightarrow> int (length buffer) - 1
      | Some j \<Rightarrow> int (length buffer - j))"
proof (induction buffer i rule: find_r2.induct)
  case (1 buffer i)
  show ?case
  proof (cases "2 * i < length buffer")
    case True
    then have "i < (length buffer + 1) div 2"
      by linarith
    then have upt: "[i..<(length buffer + 1) div 2] = i # [Suc i..<(length buffer + 1) div 2]"
      by (rule upt_conv_Cons)
    show ?thesis
    proof (cases "\<bar>buffer ! (length buffer - i)\<bar> < thres")
      case True
      with \<open>2 * i < length buffer\<close> upt show ?thesis
        by (simp add: find_r2.simps [of buffer i])
    next
      case False
      with \<open>2 * i < length buffer\<close> upt "1.IH" show ?thesis
        by (simp add: find_r2.simps [of buffer i])
    qed
  next
    case False
    then have "\<not> i < (length buffer + 1) div 2"
      by linarith
    with False show ?thesis
      by (simp add: find_r2.simps [of buffer i])
  qed
qed

text \<open>
  C4 (amended). The leading bound is the index of the first sample, among the indices
  \<open>i < SIZE / 2\<close>, whose absolute value is strictly below the threshold \<open>0.2\<close>, and \<open>0\<close>
  when there is none. The trailing bound is \<open>SIZE - i\<close> for the first \<open>i\<close> from \<open>1\<close> with
  \<open>i < SIZE / 2\<close> whose sample \<open>buffer[SIZE - i]\<close> is strictly below the threshold, and
  \<open>SIZE - 1\<close> when there is none. The trimmed region is the slice between the two.
\<close>

theorem trim_bounds:
  "find_r1 buffer 0 =
     (case find (\<lambda>i. \<bar>buffer ! i\<bar> < thres) [0..<(length buffer + 1) div 2] of
        None \<Rightarrow> 0
      | Some i \<Rightarrow> i)
   \<and> find_r2 buffer 1 =
     (case find (\<lambda>i. \<bar>buffer ! (length buffer - i)\<bar> < thres)
             [1..<(length buffer + 1) div 2] of
        None \<Rightarrow> int (length buffer) - 1
      | Some i \<Rightarrow> int (length buffer - i))
   \<and> trimmed buffer = js_slice buffer (int (find_r1 buffer 0)) (find_r2 buffer 1)"
  using find_r1_find [of buffer 0] find_r2_find [of buffer 1]
  by (simp add: trimmed_def)

text \<open>
  C4 as stated fails on a buffer that starts loud: the first sample exceeding the
  threshold is at index 0, while the code stops at index 1, the first quiet sample.
\<close>

theorem leading_bound_counterexample:
  "find_r1 [1 / 2, 1 / 8, 1 / 2, 1 / 2] 0 = 1
   \<and> spec_leading_bound [1 / 2, 1 / 8, 1 / 2, 1 / 2] = 0
   \<and> find_r1 [1 / 2, 1 / 8, 1 / 2, 1 / 2] 0 \<noteq> spec_leading_bound [1 / 2, 1 / 8, 1 / 2, 1 / 2]"
  by code_simp

section \<open>The initial decline\<close>

lemma decline_bounds: "d < length c \<Longrightarrow> d \<le> decline c d \<and> decline c d < length c"
proof (induction c d rule: decline.induct)
  case (1 c d)
  show ?case
  proof (cases "js_gt (c_at c (int d)) (c_at c (int d + 1))")
    case True
    then have "Suc d < length c"
      by (cases "Suc d < length c") (simp_all add: c_at_def)
    with True "1.IH" have "Suc d \<le> decline c (Suc d) \<and> decline c (Suc d) < length c"
      by simp
    with True show ?thesis
      by (simp add: decline.simps [of c d])
  next
    case False
    with "1.prems" show ?thesis
      by (simp add: decline.simps [of c d])
  qed
qed

lemma decline_Nil: "decline [] 0 = 0"
  by (simp add: decline.simps [of "[]" 0] c_at_def)

lemma find_r1_bound: "find_r1 buffer i = 0 \<or> 2 * find_r1 buffer i < length buffer"
proof (induction buffer i rule: find_r1.induct)
  case (1 buffer i)
  then show ?case
    by (simp add: find_r1.simps [of buffer i])
qed

lemma find_r2_bound:
  "1 \<le> i \<Longrightarrow> 2 \<le> length buffer \<Longrightarrow>
     int (length buffer) \<le> 2 * find_r2 buffer i \<and> find_r2 buffer i < int (length buffer)"
proof (induction buffer i rule: find_r2.induct)
  case (1 buffer i)
  show ?case
  proof (cases "2 * i < length buffer \<and> \<not> \<bar>buffer ! (length buffer - i)\<bar> < thres")
    case True
    with "1.IH" "1.prems" have "int (length buffer) \<le> 2 * find_r2 buffer (Suc i)
        \<and> find_r2 buffer (Suc i) < int (length buffer)"
      by simp
    with True show ?thesis
      by (simp add: find_r2.simps [of buffer i])
  next
    case False
    with "1.prems" show ?thesis
      by (auto simp add: find_r2.simps [of buffer i])
  qed
qed

lemma length_acf: "length (acf buf2) = length buf2"
  by (simp add: acf_def)

lemma trimmed_nonempty:
  assumes "2 \<le> length buffer"
  shows "trimmed buffer \<noteq> []"
proof -
  let ?r1 = "find_r1 buffer 0" and ?r2 = "find_r2 buffer 1"
  from assms have r2: "int (length buffer) \<le> 2 * ?r2" "?r2 < int (length buffer)"
    using find_r2_bound [of 1 buffer] by simp_all
  from assms have r1: "2 * int ?r1 < int (length buffer)"
    using find_r1_bound [of buffer 0] by auto
  from r1 r2 have "0 < nat (?r2 - int ?r1)" "?r1 < length buffer" "0 \<le> ?r2"
    by linarith+
  with r2(2) have "length (trimmed buffer) = nat (?r2 - int ?r1)"
    by (simp add: trimmed_def js_slice_def Let_def min_def)
  with \<open>0 < nat (?r2 - int ?r1)\<close> show ?thesis
    by auto
qed

text \<open>
  C10 (amended). The walk is a total function (its termination is proved with the
  measure \<open>length c - d\<close>: a successful comparison needs \<open>c[d + 1]\<close> to exist). On a
  non-empty autocorrelation array the final \<open>d\<close> is at most the last valid index, and
  every buffer of at least two samples has a non-empty trimmed region and so a non-empty
  array. On an empty array the walk stops at once with \<open>d = 0\<close>.
\<close>

theorem decline_stays_in_range:
  "(c \<noteq> [] \<longrightarrow> int (decline c 0) \<le> int (length c) - 1)
   \<and> decline [] 0 = 0
   \<and> (2 \<le> length buffer \<longrightarrow> acf (trimmed buffer) \<noteq> []
        \<and> int (decline (acf (trimmed buffer)) 0) \<le> int (length (acf (trimmed buffer))) - 1)"
proof (intro conjI impI)
  show "int (decline c 0) \<le> int (length c) - 1" if "c \<noteq> []"
    using that decline_bounds [of 0 c] by simp
  show "decline [] 0 = 0"
    by (rule decline_Nil)
  assume "2 \<le> length buffer"
  then have "trimmed buffer \<noteq> []"
    by (rule trimmed_nonempty)
  then show ne: "acf (trimmed buffer) \<noteq> []"
    using length_acf [of "trimmed buffer"] by auto
  then show "int (decline (acf (trimmed buffer)) 0) \<le> int (length (acf (trimmed buffer))) - 1"
    using decline_bounds [of 0 "acf (trimmed buffer)"] by simp
qed

text \<open>
  C10 as stated fails on a one-sample buffer that passes the noise gate: the trimmed
  region and the array are empty, so \<open>d = 0\<close> is beyond the last valid index \<open>-1\<close>.
\<close>

theorem decline_empty_counterexample:
  "\<not> too_quiet [1]
   \<and> acf (trimmed [1]) = []
   \<and> decline (acf (trimmed [1])) 0 = 0
   \<and> \<not> int (decline (acf (trimmed [1])) 0) \<le> int (length (acf (trimmed [1]))) - 1"
  by code_simp

theorem decline_stays_in_range_witness:
  "[3, - 2, 1 :: real] \<noteq> [] \<and> decline [3, - 2, 1] 0 = 1
   \<and> 2 \<le> length [0, 1, - 1, 1, 0 :: real]
   \<and> acf (trimmed [0, 1, - 1, 1, 0]) = [3, - 2, 1, 0]
   \<and> decline (acf (trimmed [0, 1, - 1, 1, 0])) 0 = 1"
proof -
  have "decline [3, - 2, 1] 0 = 1" "acf (trimmed [0, 1, - 1, 1, 0]) = [3, - 2, 1, 0]"
    "decline [3, - 2, 1, 0] 0 = 1"
    by code_simp+
  then show ?thesis
    using decline_stays_in_range [of "[3, - 2, 1]" "[0, 1, - 1, 1, 0]"] by simp
qed

section \<open>What the detector returns\<close>

lemma decline_stop:
  "start \<le> decline c start
   \<and> \<not> js_gt (c_at c (int (decline c start))) (c_at c (int (decline c start) + 1))
   \<and> (start < decline c start \<longrightarrow>
        js_gt (c_at c (int (decline c start) - 1)) (c_at c (int (decline c start))))"
proof (induction c start rule: decline.induct)
  case (1 c d)
  show ?case
  proof (cases "js_gt (c_at c (int d)) (c_at c (int d + 1))")
    case True
    then have eq: "decline c d = decline c (Suc d)"
      by (simp add: decline.simps [of c d])
    from True "1.IH" have IH: "Suc d \<le> decline c (Suc d)"
      "\<not> js_gt (c_at c (int (decline c (Suc d)))) (c_at c (int (decline c (Suc d)) + 1))"
      "Suc d < decline c (Suc d) \<longrightarrow>
         js_gt (c_at c (int (decline c (Suc d)) - 1)) (c_at c (int (decline c (Suc d))))"
      by simp_all
    show ?thesis
    proof (cases "Suc d < decline c (Suc d)")
      case True
      with IH eq show ?thesis
        by simp
    next
      case False
      with IH(1) have "decline c (Suc d) = Suc d"
        by simp
      with \<open>js_gt (c_at c (int d)) (c_at c (int d + 1))\<close> IH(2) eq show ?thesis
        by (simp add: add.commute)
    qed
  next
    case False
    then have "decline c d = d"
      by (simp add: decline.simps [of c d])
    with False show ?thesis
      by simp
  qed
qed

lemma peak_search_inv:
  fixes c :: "real list" and d :: nat
  defines "F \<equiv> (\<lambda>(maxval, maxpos) i.
     if c ! i > maxval then (c ! i, int i) else (maxval, maxpos :: int))"
  shows "case foldl F (- 1, - 1) [d..<n] of (mv, mp) \<Rightarrow>
     (mp = - 1 \<and> mv = - 1 \<and> (\<forall>i. d \<le> i \<and> i < n \<longrightarrow> c ! i \<le> - 1))
     \<or> (int d \<le> mp \<and> mp < int n \<and> mv = c ! nat mp
         \<and> (\<forall>i. d \<le> i \<and> i < n \<longrightarrow> c ! i \<le> mv)
         \<and> (\<forall>i. d \<le> i \<and> int i < mp \<longrightarrow> c ! i < mv))"
proof (induction n)
  case 0
  show ?case by simp
next
  case (Suc n)
  show ?case
  proof (cases "d \<le> n")
    case False
    then show ?thesis by simp
  next
    case True
    obtain mv mp where r: "foldl F (- 1, - 1) [d..<n] = (mv, mp)"
      by (cases "foldl F (- 1, - 1) [d..<n]")
    with Suc have inv:
      "(mp = - 1 \<and> mv = - 1 \<and> (\<forall>i. d \<le> i \<and> i < n \<longrightarrow> c ! i \<le> - 1))
       \<or> (int d \<le> mp \<and> mp < int n \<and> mv = c ! nat mp
           \<and> (\<forall>i. d \<le> i \<and> i < n \<longrightarrow> c ! i \<le> mv)
           \<and> (\<forall>i. d \<le> i \<and> int i < mp \<longrightarrow> c ! i < mv))"
      by simp
    from True r have step: "foldl F (- 1, - 1) [d..<Suc n] = F (mv, mp) n"
      by simp
    show ?thesis
    proof (cases "c ! n > mv")
      case True
      then have new: "foldl F (- 1, - 1) [d..<Suc n] = (c ! n, int n)"
        using step by (simp add: F_def)
      from inv True have below: "\<forall>i. d \<le> i \<and> i < n \<longrightarrow> c ! i < c ! n"
        by (elim disjE) force+
      then have "\<forall>i. d \<le> i \<and> i < Suc n \<longrightarrow> c ! i \<le> c ! n"
        by (auto simp add: less_Suc_eq)
      with below \<open>d \<le> n\<close> show ?thesis
        unfolding new by simp
    next
      case False
      then have old: "foldl F (- 1, - 1) [d..<Suc n] = (mv, mp)"
        using step by (simp add: F_def)
      from False have "c ! n \<le> mv"
        by simp
      with inv show ?thesis
        unfolding old by (auto simp add: less_Suc_eq)
    qed
  qed
qed

lemma peak_search_cases:
  assumes "peak_search c d = (mv, mp)"
  shows "mp = - 1
     \<or> (int d \<le> mp \<and> mp < int (length c)
         \<and> (\<forall>i. d \<le> i \<and> i < length c \<longrightarrow> c ! i \<le> c ! nat mp)
         \<and> (\<forall>i. d \<le> i \<and> int i < mp \<longrightarrow> c ! i < c ! nat mp))"
  using peak_search_inv [where c = c and d = d and n = "length c"] assms
  unfolding peak_search_def by auto

lemma refine_undefined: "refine T0 None b = real_of_int T0"
  by (simp add: refine_def)

lemma parabola_a_None:
  "x1 = None \<or> x2 = None \<or> x3 = None \<Longrightarrow> parabola_a x1 x2 x3 = None"
  by (auto simp add: parabola_a_def split: option.splits)

lemma refine_peak:
  fixes x1 x2 x3 :: real
  assumes "x3 \<le> x2" and "x1 < x2 \<or> (x2 < x1 \<and> x2 \<le> x3)" and "1 \<le> T0"
  shows "1 / 2 \<le> refine T0 (parabola_a (Some x1) (Some x2) (Some x3))
                      (parabola_b (Some x1) (Some x3))"
proof -
  let ?a = "(x1 + x3 - 2 * x2) / 2" and ?b = "(x3 - x1) / 2"
  have r: "refine T0 (parabola_a (Some x1) (Some x2) (Some x3)) (parabola_b (Some x1) (Some x3))
      = (if ?a \<noteq> 0 then real_of_int T0 - ?b / (2 * ?a) else real_of_int T0)"
    by (simp add: refine_def parabola_a_def parabola_b_def)
  have T: "1 \<le> real_of_int T0"
    using assms(3) by simp
  show ?thesis
  proof (cases "?a = 0")
    case True
    with r T show ?thesis by simp
  next
    case False
    have "?b / (2 * ?a) \<le> 1 / 2"
    proof (cases "x1 < x2")
      case True
      with assms(1) have "?a < 0" "?a \<le> ?b"
        by simp_all
      then show ?thesis
        by (simp add: neg_divide_le_eq)
    next
      case False
      with assms have "x2 < x1" "x3 = x2"
        by auto
      then have "0 < ?a" "?b = - ?a"
        by (simp_all add: field_simps)
      then show ?thesis
        by (simp add: pos_divide_le_eq)
    qed
    with r False T show ?thesis
      by simp
  qed
qed

lemma period_cases: "period buf2 = - 1 \<or> period buf2 = 0 \<or> 1 / 2 \<le> period buf2"
proof -
  define c where "c = acf buf2"
  define d where "d = decline c 0"
  obtain mv mp where pk: "peak_search c d = (mv, mp)"
    by (cases "peak_search c d")
  have per: "period buf2 =
      refine mp (parabola_a (c_at c (mp - 1)) (c_at c mp) (c_at c (mp + 1)))
        (parabola_b (c_at c (mp - 1)) (c_at c (mp + 1)))"
    using pk by (simp add: period_def Let_def c_def d_def)
  consider (none) "mp = - 1" | (zero) "mp = 0" | (last) "1 \<le> mp" "mp + 1 = int (length c)"
    | (inner) "1 \<le> mp" "mp + 1 < int (length c)"
    using peak_search_cases [OF pk] by linarith
  then show ?thesis
  proof cases
    case none
    then have "c_at c mp = None"
      by (simp add: c_at_def)
    then show ?thesis
      using none per by (simp add: parabola_a_None refine_undefined)
  next
    case zero
    then have "c_at c (mp - 1) = None"
      by (simp add: c_at_def)
    then show ?thesis
      using zero per by (simp add: parabola_a_None refine_undefined)
  next
    case last
    then have "c_at c (mp + 1) = None"
      by (simp add: c_at_def)
    then show ?thesis
      using last per by (simp add: parabola_a_None refine_undefined)
  next
    case inner
    with peak_search_cases [OF pk]
    have pkd: "int d \<le> mp" "\<forall>i. d \<le> i \<and> i < length c \<longrightarrow> c ! i \<le> c ! nat mp"
      "\<forall>i. d \<le> i \<and> int i < mp \<longrightarrow> c ! i < c ! nat mp"
      by auto
    from inner have x: "c_at c (mp - 1) = Some (c ! (nat mp - 1))"
      "c_at c mp = Some (c ! nat mp)" "c_at c (mp + 1) = Some (c ! (nat mp + 1))"
      by (simp_all add: c_at_def nat_diff_distrib nat_add_distrib)
    from inner pkd(1) have "d \<le> nat mp + 1 \<and> nat mp + 1 < length c"
      by linarith
    with pkd(2) have x3: "c ! (nat mp + 1) \<le> c ! nat mp"
      by blast
    have x1: "c ! (nat mp - 1) < c ! nat mp
        \<or> (c ! nat mp < c ! (nat mp - 1) \<and> c ! nat mp \<le> c ! (nat mp + 1))"
    proof (cases "int d < mp")
      case True
      with inner have "d \<le> nat mp - 1" "int (nat mp - 1) < mp"
        by linarith+
      with pkd(3) show ?thesis
        by blast
    next
      case False
      with pkd(1) have dm: "int d = mp"
        by simp
      with inner have "0 < decline c 0"
        by (simp add: d_def)
      with decline_stop [where start = 0 and c = c]
      have "js_gt (c_at c (int d - 1)) (c_at c (int d))"
        "\<not> js_gt (c_at c (int d)) (c_at c (int d + 1))"
        by (simp_all add: d_def)
      with dm x show ?thesis
        by simp
    qed
    from x3 x1 inner(1)
    have "1 / 2 \<le> refine mp (parabola_a (Some (c ! (nat mp - 1))) (Some (c ! nat mp))
                 (Some (c ! (nat mp + 1))))
              (parabola_b (Some (c ! (nat mp - 1))) (Some (c ! (nat mp + 1))))"
      by (rule refine_peak)
    then show ?thesis
      unfolding per x by simp
  qed
qed


lemma period_Nil: "period [] = - 1"
  by code_simp

lemma period_single: "period [x] = 0"
proof -
  have c: "acf [x] = [x * x]"
    by (simp add: acf_def acf_at_def)
  have d: "decline [x * x] 0 = 0"
    by (simp add: decline.simps [of "[x * x]" 0] c_at_def)
  have "- 1 < x * x"
    using zero_le_square [of x] by linarith
  then have pk: "peak_search [x * x] 0 = (x * x, 0)"
    by (simp add: peak_search_def)
  show ?thesis
    by (simp add: period_def c d pk c_at_def parabola_a_def parabola_b_def refine_def)
qed

text \<open>
  C2 (amended). For a positive sample rate \<open>autoCorrelate\<close> always returns a number and
  never faults: a read outside the array is \<open>undefined\<close>, which makes the quadratic
  coefficient \<open>NaN\<close> and skips the refinement. The value is the sentinel \<open>-1\<close> (quiet
  buffer), a positive finite frequency of at most twice the sample rate, \<open>-sampleRate\<close>
  (no peak found: \<open>maxpos\<close> stays \<open>-1\<close>) or \<open>+Infinity\<close> (peak at lag \<open>0\<close>). A degenerate
  region is not turned into the sentinel: an empty trimmed region gives \<open>-sampleRate\<close>, a
  one-sample region gives \<open>+Infinity\<close>. The pitch callback stores no pitch code for
  either of these values.
\<close>

theorem autoCorrelate_results:
  "0 < sampleRate \<Longrightarrow>
     (autoCorrelate buffer sampleRate = Num (- 1)
      \<or> autoCorrelate buffer sampleRate = Num (- sampleRate)
      \<or> autoCorrelate buffer sampleRate = PosInf
      \<or> (\<exists>f. 0 < f \<and> f \<le> 2 * sampleRate \<and> autoCorrelate buffer sampleRate = Num f))
     \<and> (\<not> too_quiet buffer \<and> trimmed buffer = []
          \<longrightarrow> autoCorrelate buffer sampleRate = Num (- sampleRate))
     \<and> (\<not> too_quiet buffer \<and> length (trimmed buffer) = 1
          \<longrightarrow> autoCorrelate buffer sampleRate = PosInf)
     \<and> userMidi (detectPitch_frequency (Num (- sampleRate)) s) = None
     \<and> userMidi (detectPitch_frequency PosInf s) = None"
proof (intro conjI impI)
  assume sr: "0 < sampleRate"
  show "autoCorrelate buffer sampleRate = Num (- 1)
      \<or> autoCorrelate buffer sampleRate = Num (- sampleRate)
      \<or> autoCorrelate buffer sampleRate = PosInf
      \<or> (\<exists>f. 0 < f \<and> f \<le> 2 * sampleRate \<and> autoCorrelate buffer sampleRate = Num f)"
  proof (cases "too_quiet buffer")
    case True
    then show ?thesis
      by (simp add: autoCorrelate_def)
  next
    case False
    then have ac: "autoCorrelate buffer sampleRate = js_div sampleRate (period (trimmed buffer))"
      by (simp add: autoCorrelate_def)
    from period_cases [of "trimmed buffer"] show ?thesis
    proof (elim disjE)
      assume "period (trimmed buffer) = - 1"
      with ac show ?thesis
        by (simp add: js_div_def)
    next
      assume "period (trimmed buffer) = 0"
      with ac sr show ?thesis
        by (simp add: js_div_def)
    next
      assume p: "1 / 2 \<le> period (trimmed buffer)"
      with sr have "0 < sampleRate / period (trimmed buffer)"
        by simp
      moreover from p sr have "sampleRate / period (trimmed buffer) \<le> 2 * sampleRate"
        by (simp add: pos_divide_le_eq)
      moreover from p ac have "autoCorrelate buffer sampleRate
          = Num (sampleRate / period (trimmed buffer))"
        by (simp add: js_div_def)
      ultimately show ?thesis
        by blast
    qed
  qed
next
  assume "\<not> too_quiet buffer \<and> trimmed buffer = []"
  then show "autoCorrelate buffer sampleRate = Num (- sampleRate)"
    by (simp add: autoCorrelate_def period_Nil js_div_def)
next
  assume sr: "0 < sampleRate"
  assume h: "\<not> too_quiet buffer \<and> length (trimmed buffer) = 1"
  then obtain x where "trimmed buffer = [x]"
    by (cases "trimmed buffer") simp_all
  with h sr show "autoCorrelate buffer sampleRate = PosInf"
    by (simp add: autoCorrelate_def period_single js_div_def)
next
  assume "0 < sampleRate"
  then show "userMidi (detectPitch_frequency (Num (- sampleRate)) s) = None"
    by (simp add: detectPitch_frequency_def)
next
  show "userMidi (detectPitch_frequency PosInf s) = None"
    by (simp add: detectPitch_frequency_def)
qed

text \<open>
  C2 as stated fails on degenerate regions: the one-sample buffer \<open>[1]\<close> at 44100 Hz has
  an empty trimmed region and yields \<open>-44100\<close>, neither the sentinel nor a positive
  frequency; the buffer \<open>[0.5, 1]\<close> has a one-sample region and yields \<open>+Infinity\<close>.
\<close>

theorem degenerate_region_counterexample:
  "[1 :: real] \<noteq> [] \<and> (0 :: real) < 44100
   \<and> trimmed [1] = []
   \<and> autoCorrelate [1] 44100 = Num (- 44100)
   \<and> autoCorrelate [1] 44100 \<noteq> Num (- 1)
   \<and> length (trimmed [1 / 2, 1]) = 1
   \<and> autoCorrelate [1 / 2, 1] 44100 = PosInf"
  by code_simp

theorem autoCorrelate_results_witness:
  "(0 :: real) < 44100
   \<and> \<not> too_quiet [1] \<and> trimmed [1] = []
   \<and> autoCorrelate [1] 44100 = Num (- 44100)
   \<and> \<not> too_quiet [1 / 2, 1] \<and> length (trimmed [1 / 2, 1]) = 1
   \<and> autoCorrelate [1 / 2, 1] 44100 = PosInf
   \<and> userMidi (detectPitch_frequency (Num (- 44100)) (listening [a4] EASY 0)) = None"
proof -
  have h1: "\<not> too_quiet [1] \<and> trimmed [1] = []"
    by code_simp
  have h2: "\<not> too_quiet [1 / 2, 1] \<and> length (trimmed [1 / 2, 1]) = 1"
    by code_simp
  have sr: "(0 :: real) < 44100"
    by simp
  from h1 autoCorrelate_results [OF sr, of "[1]" "listening [a4] EASY 0"]
  have r1: "autoCorrelate [1] 44100 = Num (- 44100)"
    and u: "userMidi (detectPitch_frequency (Num (- 44100)) (listening [a4] EASY 0)) = None"
    by blast+
  from h2 autoCorrelate_results [OF sr, of "[1 / 2, 1]" "listening [a4] EASY 0"]
  have r2: "autoCorrelate [1 / 2, 1] 44100 = PosInf"
    by blast
  from sr h1 h2 r1 r2 u show ?thesis
    by blast
qed

end
